theory Spec2Isabelle
  imports Complex_Main
begin

section \<open>JavaScript values\<close>

text \<open>
  The manager of \<^verbatim>\<open>todoManager.js\<close> checks the dynamic type of what it is given
  (\<^verbatim>\<open>typeof\<close>, \<^verbatim>\<open>?? \<close>, \<^verbatim>\<open>!= null\<close>, \<^verbatim>\<open>Set.has\<close>), so its arguments are modelled as
  values of a universal type. A number is a finite rational (the doubles are among them),
  NaN or an infinity. An object is the list of its own properties. Numbers the manager
  computes itself (task ids, code counters) are counted up from 0 or 1 in steps of 1 and stay
  below \<open>2 ^ 53\<close>, where doubles are exact: they are modelled as \<open>nat\<close>.

  Strings are \<open>char list\<close>. The model follows ECMAScript on the ASCII range
  (white space, case mapping); a \<open>char\<close> above 127 is kept as it is by the case mappings
  and is no white space.
\<close>

datatype jsnum = Finite rat | NaN | PosInfinity | NegInfinity

datatype jsval =
    JUndefined
  | JNull
  | JBool bool
  | JNum jsnum
  | JStr string
  | JFunction
  | JObj "(string \<times> jsval) list"

fun typeof :: "jsval \<Rightarrow> string" where
  "typeof JUndefined = ''undefined''"
| "typeof JNull = ''object''"
| "typeof (JBool b) = ''boolean''"
| "typeof (JNum n) = ''number''"
| "typeof (JStr s) = ''string''"
| "typeof JFunction = ''function''"
| "typeof (JObj ps) = ''object''"

text \<open>\<^verbatim>\<open>!v\<close> is the negation of \<open>truthy v\<close>.\<close>

fun truthy :: "jsval \<Rightarrow> bool" where
  "truthy JUndefined = False"
| "truthy JNull = False"
| "truthy (JBool b) = b"
| "truthy (JNum n) = (n \<noteq> Finite 0 \<and> n \<noteq> NaN)"
| "truthy (JStr s) = (s \<noteq> [])"
| "truthy JFunction = True"
| "truthy (JObj ps) = True"

text \<open>\<^verbatim>\<open>v == null\<close>: \<open>v\<close> is \<^verbatim>\<open>null\<close> or \<^verbatim>\<open>undefined\<close>.\<close>

definition nullish :: "jsval \<Rightarrow> bool" where
  "nullish v = (v = JUndefined \<or> v = JNull)"

text \<open>\<^verbatim>\<open>v ?? d\<close>\<close>

definition coalesce :: "jsval \<Rightarrow> jsval \<Rightarrow> jsval" where
  "coalesce v d = (if nullish v then d else v)"

text \<open>The string a value is, read only after \<^verbatim>\<open>typeof v === 'string'\<close>.\<close>

fun str_of :: "jsval \<Rightarrow> string" where
  "str_of (JStr s) = s"
| "str_of v = []"

text \<open>
  \<^verbatim>\<open>o.k\<close> on an object: the own property, \<^verbatim>\<open>undefined\<close> when there is none. The manager
  reads properties only of values that passed \<^verbatim>\<open>typeof v === 'object'\<close> and are not null.
\<close>

fun getProp :: "jsval \<Rightarrow> string \<Rightarrow> jsval" where
  "getProp (JObj ps) k = (case map_of ps k of Some v \<Rightarrow> v | None \<Rightarrow> JUndefined)"
| "getProp v k = JUndefined"

section \<open>Strings\<close>

definition isWhiteSpace :: "char \<Rightarrow> bool" where
  "isWhiteSpace c = (of_char c \<in> {9, 10, 11, 12, 13, 32 :: nat})"

text \<open>\<^verbatim>\<open>String.prototype.trim\<close>\<close>

definition trim :: "string \<Rightarrow> string" where
  "trim s = rev (dropWhile isWhiteSpace (rev (dropWhile isWhiteSpace s)))"

definition isUpperLetter :: "char \<Rightarrow> bool" where
  "isUpperLetter c = (65 \<le> (of_char c :: nat) \<and> (of_char c :: nat) \<le> 90)"

definition isLowerLetter :: "char \<Rightarrow> bool" where
  "isLowerLetter c = (97 \<le> (of_char c :: nat) \<and> (of_char c :: nat) \<le> 122)"

definition isDigit :: "char \<Rightarrow> bool" where
  "isDigit c = (48 \<le> (of_char c :: nat) \<and> (of_char c :: nat) \<le> 57)"

definition upperChar :: "char \<Rightarrow> char" where
  "upperChar c = (if isLowerLetter c then char_of (of_char c - 32 :: nat) else c)"

definition lowerChar :: "char \<Rightarrow> char" where
  "lowerChar c = (if isUpperLetter c then char_of (of_char c + 32 :: nat) else c)"

definition toUpperCase :: "string \<Rightarrow> string" where
  "toUpperCase s = map upperChar s"

definition toLowerCase :: "string \<Rightarrow> string" where
  "toLowerCase s = map lowerChar s"

text \<open>\<^verbatim>\<open>haystack.startsWith(needle)\<close> and \<^verbatim>\<open>haystack.includes(needle)\<close>\<close>

fun startsWith :: "string \<Rightarrow> string \<Rightarrow> bool" where
  "startsWith h [] = True"
| "startsWith [] (n # ns) = False"
| "startsWith (c # h) (n # ns) = (c = n \<and> startsWith h ns)"

fun str_includes :: "string \<Rightarrow> string \<Rightarrow> bool" where
  "str_includes [] n = (n = [])"
| "str_includes (c # h) n = (startsWith (c # h) n \<or> str_includes h n)"

text \<open>The decimal numeral of a natural number, as a template literal prints it.\<close>

definition digitChar :: "nat \<Rightarrow> char" where
  "digitChar d = char_of (48 + d)"

fun decimal :: "nat \<Rightarrow> string" where
  "decimal n = (if n < 10 then [digitChar n] else decimal (n div 10) @ [digitChar (n mod 10)])"

declare decimal.simps [simp del]

section \<open>Errors\<close>

text \<open>
  The two exception classes. The message of an exception is not modelled. An operation
  returns its result, \<open>Inl\<close> for a thrown exception, together with the state it leaves:
  what was written before a \<^verbatim>\<open>throw\<close> stays written.
\<close>

datatype error = InvalidInputError | NotFoundError

section \<open>Project keys and codes\<close>

text \<open>\<^verbatim>\<open>/^[A-Z][A-Z0-9]{1,9}$/.test(norm)\<close>\<close>

definition keyPattern :: "string \<Rightarrow> bool" where
  "keyPattern nrm =
     (case nrm of
        [] \<Rightarrow> False
      | c # cs \<Rightarrow> isUpperLetter c \<and> 1 \<le> length cs \<and> length cs \<le> 9
                 \<and> list_all (\<lambda>d. isUpperLetter d \<or> isDigit d) cs)"

definition validateProjectKey :: "jsval \<Rightarrow> error + string" where
  "validateProjectKey key =
     (if typeof key \<noteq> ''string'' then Inl InvalidInputError
      else let nrm = toUpperCase (trim (str_of key))
           in if \<not> keyPattern nrm then Inl InvalidInputError else Inr nrm)"

record CodeGenerator =
  counters :: "string \<rightharpoonup> nat"

definition new_CodeGenerator :: CodeGenerator where
  "new_CodeGenerator = \<lparr>counters = Map.empty\<rparr>"

text \<open>\<^verbatim>\<open>this.counters.get(key) ?? 0\<close>\<close>

definition counter :: "CodeGenerator \<Rightarrow> string \<Rightarrow> nat" where
  "counter g key = (case counters g key of Some n \<Rightarrow> n | None \<Rightarrow> 0)"

text \<open>\<^verbatim>\<open>CodeGenerator.next\<close>: the code, and the generator with the counter stored.\<close>

definition CodeGenerator_next :: "CodeGenerator \<Rightarrow> jsval \<Rightarrow> (error + string) \<times> CodeGenerator" where
  "CodeGenerator_next g projectKey =
     (case validateProjectKey projectKey of
        Inl e \<Rightarrow> (Inl e, g)
      | Inr key \<Rightarrow>
          (let current = counter g key;
               nxt = current + 1
           in (Inr (key @ ''-'' @ decimal nxt), g\<lparr>counters := (counters g)(key \<mapsto> nxt)\<rparr>)))"

definition CodeGenerator_peek :: "CodeGenerator \<Rightarrow> jsval \<Rightarrow> error + nat" where
  "CodeGenerator_peek g projectKey =
     (case validateProjectKey projectKey of
        Inl e \<Rightarrow> Inl e
      | Inr key \<Rightarrow> Inr (counter g key))"


section \<open>Tasks and the heap\<close>

text \<open>
  \<^verbatim>\<open>STATUSES\<close>, \<^verbatim>\<open>PRIORITIES\<close> and the two sets built from them.
\<close>

definition TODO :: jsval where "TODO = JStr ''todo''"
definition IN_PROGRESS :: jsval where "IN_PROGRESS = JStr ''in_progress''"
definition DONE :: jsval where "DONE = JStr ''done''"

definition LOW :: jsval where "LOW = JStr ''low''"
definition MEDIUM :: jsval where "MEDIUM = JStr ''medium''"
definition HIGH :: jsval where "HIGH = JStr ''high''"

definition VALID_STATUS :: "jsval set" where
  "VALID_STATUS = {TODO, IN_PROGRESS, DONE}"

definition VALID_PRIORITY :: "jsval set" where
  "VALID_PRIORITY = {LOW, MEDIUM, HIGH}"

text \<open>
  A \<^verbatim>\<open>Task\<close> object. \<^verbatim>\<open>description\<close>, \<^verbatim>\<open>status\<close> and \<^verbatim>\<open>priority\<close> hold the
  caller's value as it came; \<^verbatim>\<open>title\<close> and \<^verbatim>\<open>code\<close> are results of string operations.
  A \<^verbatim>\<open>Date\<close> is its time value; \<^verbatim>\<open>completedAt\<close> is \<open>None\<close> for \<^verbatim>\<open>null\<close>.
\<close>

record Task =
  task_id :: nat
  code :: string
  title :: string
  description :: jsval
  status :: jsval
  priority :: jsval
  createdAt :: nat
  updatedAt :: nat
  completedAt :: "nat option"

text \<open>
  Tasks and arrays are objects: the manager hands out references to them
  (\<^verbatim>\<open>getTask\<close> returns the stored object, \<^verbatim>\<open>listTasks\<close> a new array of the same
  objects) and writes through references. The state is the heap (the \<^verbatim>\<open>Task\<close> objects,
  the arrays of references to them, the next unused address; an address never given out
  holds the empty array) and the three fields of the one \<^verbatim>\<open>TodoManager\<close>:
  \<^verbatim>\<open>_tasks\<close> (a reference to its array), \<^verbatim>\<open>_nextId\<close> and \<^verbatim>\<open>_codes\<close>.
\<close>

type_synonym ref = nat

record state =
  objs :: "ref \<rightharpoonup> Task"
  arrs :: "ref \<Rightarrow> ref list"
  fresh :: ref
  tasks :: ref
  nextId :: nat
  codes :: CodeGenerator

definition alloc_Task :: "Task \<Rightarrow> state \<Rightarrow> ref \<times> state" where
  "alloc_Task t s = (fresh s, s\<lparr>objs := (objs s)(fresh s \<mapsto> t), fresh := Suc (fresh s)\<rparr>)"

definition alloc_array :: "ref list \<Rightarrow> state \<Rightarrow> ref \<times> state" where
  "alloc_array xs s = (fresh s, s\<lparr>arrs := (arrs s)(fresh s := xs), fresh := Suc (fresh s)\<rparr>)"

text \<open>A write to fields of the object behind a reference.\<close>

definition modify :: "ref \<Rightarrow> (Task \<Rightarrow> Task) \<Rightarrow> state \<Rightarrow> state" where
  "modify r f s = s\<lparr>objs := (objs s)(r := map_option f (objs s r))\<rparr>"

text \<open>\<^verbatim>\<open>a.push(r)\<close> and \<^verbatim>\<open>a.splice(i, 1)\<close>\<close>

definition push :: "ref \<Rightarrow> ref \<Rightarrow> state \<Rightarrow> state" where
  "push a r s = s\<lparr>arrs := (arrs s)(a := arrs s a @ [r])\<rparr>"

definition splice1 :: "ref \<Rightarrow> nat \<Rightarrow> state \<Rightarrow> state" where
  "splice1 a i s = s\<lparr>arrs := (arrs s)(a := take i (arrs s a) @ drop (Suc i) (arrs s a))\<rparr>"

text \<open>\<^verbatim>\<open>Array.prototype.findIndex\<close>, with its \<open>-1\<close>.\<close>

fun findIndex :: "('a \<Rightarrow> bool) \<Rightarrow> 'a list \<Rightarrow> int" where
  "findIndex P [] = - 1"
| "findIndex P (x # xs) =
     (if P x then 0 else (let i = findIndex P xs in if i = - 1 then - 1 else i + 1))"

text \<open>\<^verbatim>\<open>new TodoManager()\<close> on the empty heap.\<close>

definition new_TodoManager :: state where
  "new_TodoManager =
     \<lparr>objs = Map.empty, arrs = (\<lambda>a. []), fresh = Suc 0, tasks = 0, nextId = 1,
      codes = new_CodeGenerator\<rparr>"

section \<open>applyChanges\<close>

text \<open>
  The four guarded blocks of \<^verbatim>\<open>applyChanges\<close>, each on one property of \<^verbatim>\<open>changes\<close>.
  A block checks, then writes: when it throws, the state is the one it started from.
\<close>

definition applyTitle :: "ref \<Rightarrow> jsval \<Rightarrow> state \<Rightarrow> error + state" where
  "applyTitle task v s =
     (if \<not> nullish v then
        (if typeof v \<noteq> ''string'' \<or> trim (str_of v) = [] then Inl InvalidInputError
         else Inr (modify task (\<lambda>t. t\<lparr>title := trim (str_of v)\<rparr>) s))
      else Inr s)"

definition applyDescription :: "ref \<Rightarrow> jsval \<Rightarrow> state \<Rightarrow> error + state" where
  "applyDescription task v s =
     (if \<not> nullish v then
        (if typeof v \<noteq> ''string'' then Inl InvalidInputError
         else Inr (modify task (\<lambda>t. t\<lparr>description := v\<rparr>) s))
      else Inr s)"

definition applyPriority :: "ref \<Rightarrow> jsval \<Rightarrow> state \<Rightarrow> error + state" where
  "applyPriority task v s =
     (if \<not> nullish v then
        (if v \<notin> VALID_PRIORITY then Inl InvalidInputError
         else Inr (modify task (\<lambda>t. t\<lparr>priority := v\<rparr>) s))
      else Inr s)"

text \<open>\<open>now\<close> is what \<^verbatim>\<open>new Date()\<close> reads for \<^verbatim>\<open>completedAt\<close>.\<close>

definition applyStatus :: "ref \<Rightarrow> jsval \<Rightarrow> nat \<Rightarrow> state \<Rightarrow> error + state" where
  "applyStatus task v now s =
     (if \<not> nullish v then
        (if v \<notin> VALID_STATUS then Inl InvalidInputError
         else Inr (modify task (\<lambda>t. t\<lparr>status := v,
                                       completedAt := (if v = DONE then Some now else None)\<rparr>) s))
      else Inr s)"

text \<open>
  \<^verbatim>\<open>applyChanges(task, changes)\<close>: the blocks in the order of the source, then the stamp
  of \<^verbatim>\<open>updatedAt\<close>. \<open>now1\<close> and \<open>now2\<close> are the two readings of the clock.
\<close>

definition applyChanges :: "ref \<Rightarrow> jsval \<Rightarrow> nat \<Rightarrow> nat \<Rightarrow> state \<Rightarrow> (error + unit) \<times> state" where
  "applyChanges task changes now1 now2 s =
     (case applyTitle task (getProp changes ''title'') s of
        Inl e \<Rightarrow> (Inl e, s)
      | Inr s1 \<Rightarrow>
     (case applyDescription task (getProp changes ''description'') s1 of
        Inl e \<Rightarrow> (Inl e, s1)
      | Inr s2 \<Rightarrow>
     (case applyPriority task (getProp changes ''priority'') s2 of
        Inl e \<Rightarrow> (Inl e, s2)
      | Inr s3 \<Rightarrow>
     (case applyStatus task (getProp changes ''status'') now1 s3 of
        Inl e \<Rightarrow> (Inl e, s3)
      | Inr s4 \<Rightarrow> (Inr (), modify task (\<lambda>t. t\<lparr>updatedAt := now2\<rparr>) s4)))))"

text \<open>\<^verbatim>\<open>includesCI\<close>\<close>

definition includesCI :: "string \<Rightarrow> string \<Rightarrow> bool" where
  "includesCI haystack needle = str_includes (toLowerCase haystack) (toLowerCase needle)"

section \<open>TodoManager\<close>

definition createTask :: "jsval \<Rightarrow> nat \<Rightarrow> state \<Rightarrow> (error + ref) \<times> state" where
  "createTask input now s =
     (if \<not> truthy input \<or> typeof input \<noteq> ''object'' then (Inl InvalidInputError, s)
      else
        let ttl = (if typeof (getProp input ''title'') = ''string''
                   then trim (str_of (getProp input ''title'')) else [])
        in if ttl = [] then (Inl InvalidInputError, s)
        else
          let descr = coalesce (getProp input ''description'') (JStr []);
              prio = coalesce (getProp input ''priority'') MEDIUM
          in if prio \<notin> VALID_PRIORITY then (Inl InvalidInputError, s)
          else
            (case validateProjectKey (coalesce (getProp input ''projectKey'') (JStr ''TASK'')) of
               Inl e \<Rightarrow> (Inl e, s)
             | Inr projectKey \<Rightarrow>
                 let ident = nextId s;
                     s1 = s\<lparr>nextId := nextId s + 1\<rparr>
                 in (case CodeGenerator_next (codes s1) (JStr projectKey) of
                       (Inl e, g) \<Rightarrow> (Inl e, s1\<lparr>codes := g\<rparr>)
                     | (Inr c, g) \<Rightarrow>
                         let (task, s2) =
                               alloc_Task
                                 \<lparr>task_id = ident, code = c, title = ttl, description = descr,
                                  status = TODO, priority = prio, createdAt = now,
                                  updatedAt = now, completedAt = None\<rparr>
                                 (s1\<lparr>codes := g\<rparr>)
                         in (Inr task, push (tasks s2) task s2))))"

text \<open>\<^verbatim>\<open>[...this._tasks]\<close>: a new array with the references of the manager's array.\<close>

definition listTasks :: "state \<Rightarrow> ref \<times> state" where
  "listTasks s = alloc_array (arrs s (tasks s)) s"

text \<open>\<^verbatim>\<open>t => t.id === id\<close>, on a reference \<open>r\<close> to \<open>t\<close>.\<close>

definition id_is :: "jsval \<Rightarrow> state \<Rightarrow> ref \<Rightarrow> bool" where
  "id_is ident s r =
     (case objs s r of Some t \<Rightarrow> JNum (Finite (of_nat (task_id t))) = ident | None \<Rightarrow> False)"

definition getTask :: "jsval \<Rightarrow> state \<Rightarrow> error + ref" where
  "getTask ident s =
     (if typeof ident \<noteq> ''number'' then Inl InvalidInputError
      else case find (id_is ident s) (arrs s (tasks s)) of
             None \<Rightarrow> Inl NotFoundError
           | Some t \<Rightarrow> Inr t)"

text \<open>
  \<^verbatim>\<open>/^[A-Z][A-Z0-9]{1,9}-\d+$/.test(c)\<close>: no character of the key is a hyphen, so the key
  ends at the first hyphen of \<open>c\<close>.
\<close>

definition codePattern :: "string \<Rightarrow> bool" where
  "codePattern c =
     (keyPattern (takeWhile (\<lambda>x. x \<noteq> CHR ''-'') c) \<and>
      (case dropWhile (\<lambda>x. x \<noteq> CHR ''-'') c of
         [] \<Rightarrow> False
       | h # ds \<Rightarrow> ds \<noteq> [] \<and> list_all isDigit ds))"

definition findByCode :: "jsval \<Rightarrow> state \<Rightarrow> error + ref" where
  "findByCode c s =
     (if typeof c \<noteq> ''string'' \<or> \<not> codePattern (toUpperCase (trim (str_of c)))
      then Inl InvalidInputError
      else
        let nrm = toUpperCase (trim (str_of c))
        in case find (\<lambda>r. case objs s r of Some t \<Rightarrow> code t = nrm | None \<Rightarrow> False)
                  (arrs s (tasks s)) of
             None \<Rightarrow> Inl NotFoundError
           | Some t \<Rightarrow> Inr t)"

text \<open>\<open>now\<close> is the reading of the clock for \<^verbatim>\<open>updatedAt\<close>.\<close>

definition updateTask :: "jsval \<Rightarrow> jsval \<Rightarrow> nat \<Rightarrow> state \<Rightarrow> (error + ref) \<times> state" where
  "updateTask ident changes now s =
     (case getTask ident s of
        Inl e \<Rightarrow> (Inl e, s)
      | Inr task \<Rightarrow>
          if \<not> truthy changes \<or> typeof changes \<noteq> ''object'' then (Inl InvalidInputError, s)
          else
            (case applyChanges task
                    (JObj [(''title'', getProp changes ''title''),
                           (''description'', getProp changes ''description''),
                           (''priority'', getProp changes ''priority'')])
                    now now s of
               (Inl e, s') \<Rightarrow> (Inl e, s')
             | (Inr u, s') \<Rightarrow> (Inr task, s')))"

definition changeStatus :: "jsval \<Rightarrow> jsval \<Rightarrow> nat \<Rightarrow> nat \<Rightarrow> state \<Rightarrow> (error + ref) \<times> state" where
  "changeStatus ident newStatus now1 now2 s =
     (case getTask ident s of
        Inl e \<Rightarrow> (Inl e, s)
      | Inr task \<Rightarrow>
          (case applyChanges task (JObj [(''status'', newStatus)]) now1 now2 s of
             (Inl e, s') \<Rightarrow> (Inl e, s')
           | (Inr u, s') \<Rightarrow> (Inr task, s')))"

definition removeTask :: "jsval \<Rightarrow> state \<Rightarrow> (error + unit) \<times> state" where
  "removeTask ident s =
     (if typeof ident \<noteq> ''number'' then (Inl InvalidInputError, s)
      else
        let idx = findIndex (id_is ident s) (arrs s (tasks s))
        in if idx = - 1 then (Inl NotFoundError, s)
           else (Inr (), splice1 (tasks s) (nat idx) s))"

text \<open>\<^verbatim>\<open>Array.prototype.filter\<close> on the manager's array returns a new array.\<close>

definition filterTasks :: "(Task \<Rightarrow> bool) \<Rightarrow> state \<Rightarrow> ref \<times> state" where
  "filterTasks P s =
     alloc_array
       (filter (\<lambda>r. case objs s r of Some t \<Rightarrow> P t | None \<Rightarrow> False) (arrs s (tasks s))) s"

definition filterByStatus :: "jsval \<Rightarrow> state \<Rightarrow> (error + ref) \<times> state" where
  "filterByStatus st s =
     (if st \<notin> VALID_STATUS then (Inl InvalidInputError, s)
      else (case filterTasks (\<lambda>t. status t = st) s of (a, s') \<Rightarrow> (Inr a, s')))"

definition filterByPriority :: "jsval \<Rightarrow> state \<Rightarrow> (error + ref) \<times> state" where
  "filterByPriority p s =
     (if p \<notin> VALID_PRIORITY then (Inl InvalidInputError, s)
      else (case filterTasks (\<lambda>t. priority t = p) s of (a, s') \<Rightarrow> (Inr a, s')))"

definition searchByTitle :: "jsval \<Rightarrow> state \<Rightarrow> (error + ref) \<times> state" where
  "searchByTitle query s =
     (if typeof query \<noteq> ''string'' \<or> trim (str_of query) = [] then (Inl InvalidInputError, s)
      else
        let q = trim (str_of query)
        in (case filterTasks (\<lambda>t. includesCI (title t) q) s of (a, s') \<Rightarrow> (Inr a, s')))"

text \<open>
  \<^verbatim>\<open>countByStatus\<close>: the three counters of \<^verbatim>\<open>acc\<close>, for \<^verbatim>\<open>todo\<close>, \<^verbatim>\<open>in_progress\<close>
  and \<^verbatim>\<open>done\<close>.
\<close>

definition countByStatus :: "state \<Rightarrow> nat \<times> nat \<times> nat" where
  "countByStatus s =
     (let sts = map (\<lambda>r. map_option status (objs s r)) (arrs s (tasks s))
      in (length (filter (\<lambda>x. x = Some TODO) sts),
          length (filter (\<lambda>x. x = Some IN_PROGRESS) sts),
          length (filter (\<lambda>x. x = Some DONE) sts)))"

section \<open>Runs of the manager\<close>

text \<open>
  A call of a method of the manager with its arguments and the readings of the clock it
  makes, and what it returns: a reference to a task, a reference to an array, nothing, or
  the counts.
\<close>

datatype call =
    CreateTask jsval nat
  | ListTasks
  | GetTask jsval
  | FindByCode jsval
  | UpdateTask jsval jsval nat
  | ChangeStatus jsval jsval nat nat
  | RemoveTask jsval
  | FilterByStatus jsval
  | FilterByPriority jsval
  | SearchByTitle jsval
  | CountByStatus

datatype retval = RTask ref | RArray ref | RNothing | RCounts nat nat nat

fun step :: "call \<Rightarrow> state \<Rightarrow> (error + retval) \<times> state" where
  "step (CreateTask input now) s =
     (case createTask input now s of (r, s') \<Rightarrow> (map_sum (\<lambda>e. e) RTask r, s'))"
| "step ListTasks s = (case listTasks s of (a, s') \<Rightarrow> (Inr (RArray a), s'))"
| "step (GetTask ident) s = (map_sum (\<lambda>e. e) RTask (getTask ident s), s)"
| "step (FindByCode c) s = (map_sum (\<lambda>e. e) RTask (findByCode c s), s)"
| "step (UpdateTask ident changes now) s =
     (case updateTask ident changes now s of (r, s') \<Rightarrow> (map_sum (\<lambda>e. e) RTask r, s'))"
| "step (ChangeStatus ident st now1 now2) s =
     (case changeStatus ident st now1 now2 s of (r, s') \<Rightarrow> (map_sum (\<lambda>e. e) RTask r, s'))"
| "step (RemoveTask ident) s =
     (case removeTask ident s of (r, s') \<Rightarrow> (map_sum (\<lambda>e. e) (\<lambda>u. RNothing) r, s'))"
| "step (FilterByStatus st) s =
     (case filterByStatus st s of (r, s') \<Rightarrow> (map_sum (\<lambda>e. e) RArray r, s'))"
| "step (FilterByPriority p) s =
     (case filterByPriority p s of (r, s') \<Rightarrow> (map_sum (\<lambda>e. e) RArray r, s'))"
| "step (SearchByTitle q) s =
     (case searchByTitle q s of (r, s') \<Rightarrow> (map_sum (\<lambda>e. e) RArray r, s'))"
| "step CountByStatus s =
     (case countByStatus s of (a, b, c) \<Rightarrow> (Inr (RCounts a b c), s))"

text \<open>
  The state after a list of calls, and the states a new manager can reach. The manager is
  changed through its methods only: a caller that writes to a task or to \<^verbatim>\<open>_tasks\<close> by
  itself is outside the model. \<^verbatim>\<open>findByCode\<close>, \<^verbatim>\<open>getTask\<close> and \<^verbatim>\<open>countByStatus\<close> read
  the state and leave it as it is; the methods that return an array allocate it.
\<close>

fun run :: "call list \<Rightarrow> state \<Rightarrow> state" where
  "run [] s = s"
| "run (c # cs) s = run cs (snd (step c s))"

definition reachable :: "state \<Rightarrow> bool" where
  "reachable s = (\<exists>cs. s = run cs new_TodoManager)"

text \<open>The tasks in the store: the objects the manager's array refers to.\<close>

definition in_store :: "state \<Rightarrow> Task \<Rightarrow> bool" where
  "in_store s t = (\<exists>r \<in> set (arrs s (tasks s)). objs s r = Some t)"

section \<open>Sequences of calls of the code generator\<close>



section \<open>The invariant of the store\<close>

text \<open>
  What holds of every task in the store in every state the manager reaches: the coupling
  of \<^verbatim>\<open>completedAt\<close> and \<^verbatim>\<open>status\<close>, and the well-formedness of the fields.
  \<open>keeps_ok f\<close> says that the field update \<open>f\<close> keeps both and the id.
\<close>

definition coupled :: "Task \<Rightarrow> bool" where
  "coupled t = ((completedAt t \<noteq> None) = (status t = DONE))"

definition well_formed :: "Task \<Rightarrow> bool" where
  "well_formed t =
     (title t \<noteq> [] \<and> trim (title t) = title t
      \<and> status t \<in> VALID_STATUS
      \<and> priority t \<in> VALID_PRIORITY
      \<and> (\<exists>key n. keyPattern key \<and> 0 < n \<and> code t = key @ ''-'' @ decimal n))"

definition task_ok :: "Task \<Rightarrow> bool" where
  "task_ok t = (coupled t \<and> well_formed t)"

definition keeps_ok :: "(Task \<Rightarrow> Task) \<Rightarrow> bool" where
  "keeps_ok f = (\<forall>t. (task_ok t \<longrightarrow> task_ok (f t)) \<and> task_id (f t) = task_id t)"

definition invariant :: "state \<Rightarrow> bool" where
  "invariant s =
     (tasks s < fresh s \<and>
      (\<forall>r \<in> set (arrs s (tasks s)). r < fresh s \<and> (\<exists>t. objs s r = Some t \<and> task_ok t)))"

text \<open>
  The ids of the tasks an array refers to. In every state the manager reaches, the ids in
  the manager's array increase strictly and are below \<^verbatim>\<open>_nextId\<close>: a new task goes to the
  end of the array, and a removal keeps the order of the others.
\<close>

definition id_at :: "state \<Rightarrow> ref \<Rightarrow> nat" where
  "id_at s r = (case objs s r of Some t \<Rightarrow> task_id t | None \<Rightarrow> 0)"

definition ids_in :: "state \<Rightarrow> ref \<Rightarrow> nat list" where
  "ids_in s a = map (id_at s) (arrs s a)"

definition ordered :: "state \<Rightarrow> bool" where
  "ordered s =
     (tasks s < fresh s
      \<and> (\<forall>r \<in> set (arrs s (tasks s)). r < fresh s)
      \<and> sorted_wrt (<) (ids_in s (tasks s))
      \<and> (\<forall>i \<in> set (ids_in s (tasks s)). i < nextId s))"

text \<open>The state after a successful \<^verbatim>\<open>createTask\<close>.\<close>

definition created :: "state \<Rightarrow> nat \<Rightarrow> string \<Rightarrow> string \<Rightarrow> jsval \<Rightarrow> jsval \<Rightarrow> string \<Rightarrow> state" where
  "created s now key ttl descr prio c =
     s\<lparr>objs := (objs s)(fresh s \<mapsto>
            \<lparr>task_id = nextId s, code = c, title = ttl,
             description = descr, status = TODO, priority = prio, createdAt = now,
             updatedAt = now, completedAt = None\<rparr>),
       arrs := (arrs s)(tasks s := arrs s (tasks s) @ [fresh s]),
       fresh := Suc (fresh s),
       nextId := Suc (nextId s),
       codes := (codes s)\<lparr>counters := (counters (codes s))(key \<mapsto> Suc (counter (codes s) key))\<rparr>\<rparr>"

section \<open>Example runs\<close>

text \<open>A task is created and completed.\<close>

definition example_calls :: "call list" where
  "example_calls =
     [CreateTask (JObj [(''title'', JStr ''Implementar LOGIN''), (''projectKey'', JStr ''proj'')]) 7,
      ChangeStatus (JNum (Finite 1)) (JStr ''done'') 8 9]"

definition example_task :: Task where
  "example_task =
     \<lparr>task_id = 1, code = ''PROJ-1'', title = ''Implementar LOGIN'', description = JStr [],
      status = JStr ''done'', priority = JStr ''medium'', createdAt = 7, updatedAt = 9,
      completedAt = Some 8\<rparr>"





section \<open>The ids of the tasks created in a run\<close>

text \<open>
  \<open>created_id c s\<close> is the id of the task that the call \<open>c\<close> returns in state \<open>s\<close> when
  \<open>c\<close> is a successful \<^verbatim>\<open>createTask\<close>. \<open>created_ids cs s\<close> lists these ids over the calls
  \<open>cs\<close> made one after the other from \<open>s\<close>, and \<open>creations cs s\<close> counts the successful
  \<^verbatim>\<open>createTask\<close> calls among them.
\<close>

definition succeeds :: "call \<Rightarrow> state \<Rightarrow> bool" where
  "succeeds c s = (case fst (step c s) of Inr v \<Rightarrow> True | Inl e \<Rightarrow> False)"

definition created_id :: "call \<Rightarrow> state \<Rightarrow> nat option" where
  "created_id c s =
     (case c of
        CreateTask input now \<Rightarrow>
          (case createTask input now s of
             (Inr task, s') \<Rightarrow> map_option task_id (objs s' task)
           | (Inl e, s') \<Rightarrow> None)
      | _ \<Rightarrow> None)"

fun created_ids :: "call list \<Rightarrow> state \<Rightarrow> nat list" where
  "created_ids [] s = []"
| "created_ids (c # cs) s =
     (case created_id c s of Some i \<Rightarrow> [i] | None \<Rightarrow> []) @ created_ids cs (snd (step c s))"

definition is_creation :: "call \<Rightarrow> state \<Rightarrow> bool" where
  "is_creation c s = (case c of CreateTask input now \<Rightarrow> succeeds c s | _ \<Rightarrow> False)"

fun creations :: "call list \<Rightarrow> state \<Rightarrow> nat" where
  "creations [] s = 0"
| "creations (c # cs) s = (if is_creation c s then 1 else 0) + creations cs (snd (step c s))"

section \<open>Notions of the specification\<close>

text \<open>
  An integer among the values (\<^verbatim>\<open>Number.isInteger\<close>), and that no task of the store has
  the id \<open>ident\<close>.
\<close>

definition is_integer :: "jsval \<Rightarrow> bool" where
  "is_integer v =
     (case v of JNum (Finite q) \<Rightarrow> q = of_int \<lfloor>q\<rfloor> | _ \<Rightarrow> False)"

definition no_task_with_id :: "jsval \<Rightarrow> state \<Rightarrow> bool" where
  "no_task_with_id ident s = (\<forall>r \<in> set (arrs s (tasks s)). \<not> id_is ident s r)"





section \<open>Basic facts\<close>

subsection \<open>Trimming\<close>

lemma dropWhile_last: "dropWhile P xs \<noteq> [] \<Longrightarrow> last (dropWhile P xs) = last xs"
  by (induction xs) (auto split: if_splits)

lemma dropWhile_fix: "xs = [] \<or> \<not> P (hd xs) \<Longrightarrow> dropWhile P xs = xs"
  by (cases xs) auto

lemma trim_fix:
  assumes "t = [] \<or> (\<not> isWhiteSpace (hd t) \<and> \<not> isWhiteSpace (last t))"
  shows "trim t = t"
proof (cases "t = []")
  case True
  then show ?thesis by (simp add: trim_def)
next
  case False
  with assms have h: "\<not> isWhiteSpace (hd t)" and l: "\<not> isWhiteSpace (last t)" by auto
  have a: "dropWhile isWhiteSpace t = t" using h by (simp add: dropWhile_fix)
  have "hd (rev t) = last t" using False by (simp add: hd_rev)
  then have b: "dropWhile isWhiteSpace (rev t) = rev t" using l by (simp add: dropWhile_fix)
  show ?thesis by (simp add: trim_def a b)
qed

lemma trim_ends:
  assumes "trim s \<noteq> []"
  shows "\<not> isWhiteSpace (hd (trim s)) \<and> \<not> isWhiteSpace (last (trim s))"
proof -
  let ?a = "dropWhile isWhiteSpace s"
  let ?b = "dropWhile isWhiteSpace (rev ?a)"
  have t: "trim s = rev ?b" by (simp add: trim_def)
  with assms have bne: "?b \<noteq> []" by simp
  have ane: "?a \<noteq> []"
  proof
    assume "?a = []"
    then have "?b = []" by (simp only: rev.simps dropWhile.simps)
    with bne show False by contradiction
  qed
  have "last (trim s) = hd ?b" using bne by (simp add: t last_rev)
  moreover have "\<not> isWhiteSpace (hd ?b)" using bne by (rule hd_dropWhile)
  moreover have "hd (trim s) = last ?b" using bne by (simp add: t hd_rev)
  moreover have "last ?b = last (rev ?a)" using bne by (rule dropWhile_last)
  moreover have "last (rev ?a) = hd ?a" using ane by (simp add: last_rev)
  moreover have "\<not> isWhiteSpace (hd ?a)" using ane by (rule hd_dropWhile)
  ultimately show ?thesis by simp
qed

lemma trim_idem: "trim (trim s) = trim s"
  using trim_ends [of s] by (intro trim_fix) blast

subsection \<open>Dynamic types and project keys\<close>

lemma typeof_string: "typeof v = ''string'' \<longleftrightarrow> (\<exists>x. v = JStr x)"
  by (cases v) auto

lemma typeof_number: "typeof v = ''number'' \<longleftrightarrow> (\<exists>n. v = JNum n)"
  by (cases v) auto

lemma is_object: "(truthy v \<and> typeof v = ''object'') \<longleftrightarrow> (\<exists>ps. v = JObj ps)"
  by (cases v) auto

lemma keyPattern_chars:
  assumes "keyPattern k" and "c \<in> set k"
  shows "isUpperLetter c \<or> isDigit c"
  using assms by (cases k) (auto simp: keyPattern_def list_all_iff)

lemma keyPattern_nonempty: "keyPattern k \<Longrightarrow> k \<noteq> []"
  by (auto simp: keyPattern_def)

lemma key_char_not_space: "isUpperLetter c \<or> isDigit c \<Longrightarrow> \<not> isWhiteSpace c"
  by (auto simp: isUpperLetter_def isDigit_def isWhiteSpace_def)

lemma key_char_upper: "isUpperLetter c \<or> isDigit c \<Longrightarrow> upperChar c = c"
  by (auto simp: isUpperLetter_def isDigit_def upperChar_def isLowerLetter_def)


lemma keyPattern_trim: 
  assumes "keyPattern k" shows "trim k = k"
proof (rule trim_fix)
  have ne: "k \<noteq> []" using assms by (rule keyPattern_nonempty)
  then have "hd k \<in> set k" and "last k \<in> set k" by simp_all
  then show "k = [] \<or> (\<not> isWhiteSpace (hd k) \<and> \<not> isWhiteSpace (last k))"
    using keyPattern_chars [OF assms] key_char_not_space by blast
qed

lemma keyPattern_upper:
  assumes "keyPattern k" shows "toUpperCase k = k"
  unfolding toUpperCase_def
  using keyPattern_chars [OF assms] key_char_upper by (simp add: map_idI)


lemma validateProjectKey_Inr: "validateProjectKey v = Inr k \<Longrightarrow> keyPattern k"
  by (auto simp: validateProjectKey_def Let_def split: if_splits)

lemma validateProjectKey_normal: "keyPattern k \<Longrightarrow> validateProjectKey (JStr k) = Inr k"
  by (simp add: validateProjectKey_def keyPattern_trim keyPattern_upper)

lemma validateProjectKey_idem:
  "validateProjectKey v = Inr k \<Longrightarrow> validateProjectKey (JStr k) = Inr k"
  by (rule validateProjectKey_normal) (rule validateProjectKey_Inr)

lemma CodeGenerator_next_Inr:
  assumes "validateProjectKey v = Inr k"
  shows "CodeGenerator_next g v =
           (Inr (k @ ''-'' @ decimal (Suc (counter g k))),
            g\<lparr>counters := (counters g)(k \<mapsto> Suc (counter g k))\<rparr>)"
  using assms by (simp add: CodeGenerator_next_def Let_def)


subsection \<open>The code generator\<close>












subsection \<open>Writes to the heap\<close>

lemma modify_fields [simp]:
  "objs (modify r f s) = (objs s)(r := map_option f (objs s r))"
  "arrs (modify r f s) = arrs s"
  "fresh (modify r f s) = fresh s"
  "tasks (modify r f s) = tasks s"
  "nextId (modify r f s) = nextId s"
  "codes (modify r f s) = codes s"
  by (simp_all add: modify_def)

lemma push_fields [simp]:
  "objs (push a r s) = objs s"
  "arrs (push a r s) = (arrs s)(a := arrs s a @ [r])"
  "fresh (push a r s) = fresh s"
  "tasks (push a r s) = tasks s"
  "nextId (push a r s) = nextId s"
  "codes (push a r s) = codes s"
  by (simp_all add: push_def)

lemma splice1_fields [simp]:
  "objs (splice1 a i s) = objs s"
  "arrs (splice1 a i s) = (arrs s)(a := take i (arrs s a) @ drop (Suc i) (arrs s a))"
  "fresh (splice1 a i s) = fresh s"
  "tasks (splice1 a i s) = tasks s"
  "nextId (splice1 a i s) = nextId s"
  "codes (splice1 a i s) = codes s"
  by (simp_all add: splice1_def)

lemma alloc_array_fields [simp]:
  "fst (alloc_array xs s) = fresh s"
  "objs (snd (alloc_array xs s)) = objs s"
  "arrs (snd (alloc_array xs s)) = (arrs s)(fresh s := xs)"
  "fresh (snd (alloc_array xs s)) = Suc (fresh s)"
  "tasks (snd (alloc_array xs s)) = tasks s"
  "nextId (snd (alloc_array xs s)) = nextId s"
  "codes (snd (alloc_array xs s)) = codes s"
  by (simp_all add: alloc_array_def)

lemma alloc_Task_fields [simp]:
  "fst (alloc_Task t s) = fresh s"
  "objs (snd (alloc_Task t s)) = (objs s)(fresh s \<mapsto> t)"
  "arrs (snd (alloc_Task t s)) = arrs s"
  "fresh (snd (alloc_Task t s)) = Suc (fresh s)"
  "tasks (snd (alloc_Task t s)) = tasks s"
  "nextId (snd (alloc_Task t s)) = nextId s"
  "codes (snd (alloc_Task t s)) = codes s"
  by (simp_all add: alloc_Task_def)

lemma modify_id: "modify r (\<lambda>t. t) s = s"
  by (simp add: modify_def option.map_ident)

lemma modify_modify: "modify r g (modify r f s) = modify r (\<lambda>t. g (f t)) s"
  by (simp add: modify_def option.map_comp comp_def)

lemma keeps_ok_id: "keeps_ok (\<lambda>t. t)"
  by (simp add: keeps_ok_def)

lemma keeps_ok_comp: "keeps_ok f \<Longrightarrow> keeps_ok g \<Longrightarrow> keeps_ok (\<lambda>t. g (f t))"
  by (simp add: keeps_ok_def)

lemma keeps_ok_title:
  "trim x \<noteq> [] \<Longrightarrow> keeps_ok (\<lambda>t. t\<lparr>title := trim x\<rparr>)"
  by (simp add: keeps_ok_def task_ok_def coupled_def well_formed_def trim_idem)

lemma keeps_ok_description: "keeps_ok (\<lambda>t. t\<lparr>description := v\<rparr>)"
  by (simp add: keeps_ok_def task_ok_def coupled_def well_formed_def)

lemma keeps_ok_priority: "v \<in> VALID_PRIORITY \<Longrightarrow> keeps_ok (\<lambda>t. t\<lparr>priority := v\<rparr>)"
  by (simp add: keeps_ok_def task_ok_def coupled_def well_formed_def)

lemma keeps_ok_status:
  "v \<in> VALID_STATUS \<Longrightarrow>
   keeps_ok (\<lambda>t. t\<lparr>status := v, completedAt := (if v = DONE then Some now else None)\<rparr>)"
  by (simp add: keeps_ok_def task_ok_def coupled_def well_formed_def)

lemma keeps_ok_updatedAt: "keeps_ok (\<lambda>t. t\<lparr>updatedAt := now\<rparr>)"
  by (simp add: keeps_ok_def task_ok_def coupled_def well_formed_def)

lemma applyTitle_Inr:
  "applyTitle r v s = Inr s' \<Longrightarrow> \<exists>f. keeps_ok f \<and> s' = modify r f s"
  unfolding applyTitle_def
  by (auto split: if_splits intro: keeps_ok_title keeps_ok_id modify_id [symmetric])

lemma applyDescription_Inr:
  "applyDescription r v s = Inr s' \<Longrightarrow> \<exists>f. keeps_ok f \<and> s' = modify r f s"
  unfolding applyDescription_def
  by (auto split: if_splits intro: keeps_ok_description keeps_ok_id modify_id [symmetric])

lemma applyPriority_Inr:
  "applyPriority r v s = Inr s' \<Longrightarrow> \<exists>f. keeps_ok f \<and> s' = modify r f s"
  unfolding applyPriority_def
  by (auto split: if_splits intro: keeps_ok_priority keeps_ok_id modify_id [symmetric])

lemma applyStatus_Inr:
  "applyStatus r v now s = Inr s' \<Longrightarrow> \<exists>f. keeps_ok f \<and> s' = modify r f s"
  unfolding applyStatus_def
  by (auto split: if_splits intro: keeps_ok_status keeps_ok_id modify_id [symmetric])

lemma applyChanges_modify:
  "\<exists>f. keeps_ok f \<and> snd (applyChanges r ch now1 now2 s) = modify r f s"
proof (cases "applyTitle r (getProp ch ''title'') s")
  case (Inl e)
  then show ?thesis
    by (auto simp: applyChanges_def intro: keeps_ok_id modify_id [symmetric])
next
  case a: (Inr s1)
  then obtain f1 where f1: "keeps_ok f1" "s1 = modify r f1 s"
    using applyTitle_Inr by blast
  show ?thesis
  proof (cases "applyDescription r (getProp ch ''description'') s1")
    case (Inl e)
    then show ?thesis using a f1 by (auto simp: applyChanges_def)
  next
    case b: (Inr s2)
    then obtain f2 where g2: "keeps_ok f2" "s2 = modify r f2 s1"
      using applyDescription_Inr by blast
    have f2: "keeps_ok (\<lambda>t. f2 (f1 t))" "s2 = modify r (\<lambda>t. f2 (f1 t)) s"
      using keeps_ok_comp [OF f1(1) g2(1)] g2(2) f1(2) by (simp_all add: modify_modify)
    show ?thesis
    proof (cases "applyPriority r (getProp ch ''priority'') s2")
      case (Inl e)
      then show ?thesis using a b f2 by (auto simp: applyChanges_def)
    next
      case c: (Inr s3)
      then obtain f3 where g3: "keeps_ok f3" "s3 = modify r f3 s2"
        using applyPriority_Inr by blast
      have f3: "keeps_ok (\<lambda>t. f3 (f2 (f1 t)))" "s3 = modify r (\<lambda>t. f3 (f2 (f1 t))) s"
        using keeps_ok_comp [OF f2(1) g3(1)] g3(2) f2(2) by (simp_all add: modify_modify)
      show ?thesis
      proof (cases "applyStatus r (getProp ch ''status'') now1 s3")
        case (Inl e)
        then show ?thesis using a b c f3 by (auto simp: applyChanges_def)
      next
        case d: (Inr s4)
        then obtain f4 where g4: "keeps_ok f4" "s4 = modify r f4 s3"
          using applyStatus_Inr by blast
        have f4: "keeps_ok (\<lambda>t. f4 (f3 (f2 (f1 t))))"
          "s4 = modify r (\<lambda>t. f4 (f3 (f2 (f1 t)))) s"
          using keeps_ok_comp [OF f3(1) g4(1)] g4(2) f3(2) by (simp_all add: modify_modify)
        have "keeps_ok (\<lambda>t. (f4 (f3 (f2 (f1 t))))\<lparr>updatedAt := now2\<rparr>)"
          using keeps_ok_comp [OF f4(1) keeps_ok_updatedAt] .
        moreover have "snd (applyChanges r ch now1 now2 s)
                         = modify r (\<lambda>t. (f4 (f3 (f2 (f1 t))))\<lparr>updatedAt := now2\<rparr>) s"
          using a b c d f4 by (simp add: applyChanges_def modify_modify)
        ultimately show ?thesis by blast
      qed
    qed
  qed
qed

subsection \<open>The invariant is preserved\<close>

lemma invariant_modify:
  assumes "invariant s" and "keeps_ok f"
  shows "invariant (modify r f s)"
  using assms by (auto simp: invariant_def keeps_ok_def)

lemma invariant_alloc_array:
  assumes "invariant s"
  shows "invariant (snd (alloc_array xs s))"
  using assms by (auto simp: invariant_def less_Suc_eq)

lemma invariant_splice1:
  assumes "invariant s"
  shows "invariant (splice1 (tasks s) i s)"
proof -
  have "set (take i (arrs s (tasks s)) @ drop (Suc i) (arrs s (tasks s))) \<subseteq> set (arrs s (tasks s))"
    using set_take_subset set_drop_subset by fastforce
  then show ?thesis using assms by (auto simp: invariant_def)
qed

lemma invariant_new: "invariant new_TodoManager"
  by (simp add: invariant_def new_TodoManager_def)

lemma updateTask_snd:
  "getTask ident s = Inr r \<Longrightarrow> truthy ch \<Longrightarrow> typeof ch = ''object'' \<Longrightarrow>
   snd (updateTask ident ch now s) =
     snd (applyChanges r (JObj [(''title'', getProp ch ''title''),
                                (''description'', getProp ch ''description''),
                                (''priority'', getProp ch ''priority'')]) now now s)"
  by (simp add: updateTask_def split: prod.splits sum.splits)

lemma changeStatus_snd:
  "getTask ident s = Inr r \<Longrightarrow>
   snd (changeStatus ident st now1 now2 s) =
     snd (applyChanges r (JObj [(''status'', st)]) now1 now2 s)"
  by (simp add: changeStatus_def split: prod.splits sum.splits)

lemma updateTask_modify:
  "\<exists>r f. keeps_ok f \<and> snd (updateTask ident ch now s) = modify r f s"
proof (cases "getTask ident s")
  case (Inl e)
  then have "snd (updateTask ident ch now s) = modify 0 (\<lambda>t. t) s"
    by (simp add: updateTask_def modify_id)
  then show ?thesis using keeps_ok_id by blast
next
  case (Inr r)
  show ?thesis
  proof (cases "truthy ch \<and> typeof ch = ''object''")
    case False
    then have "snd (updateTask ident ch now s) = modify 0 (\<lambda>t. t) s"
      using Inr by (auto simp: updateTask_def modify_id)
    then show ?thesis using keeps_ok_id by blast
  next
    case True
    then show ?thesis
      using updateTask_snd [OF Inr, of ch now] applyChanges_modify by metis
  qed
qed

lemma changeStatus_modify:
  "\<exists>r f. keeps_ok f \<and> snd (changeStatus ident st now1 now2 s) = modify r f s"
proof (cases "getTask ident s")
  case (Inl e)
  then have "snd (changeStatus ident st now1 now2 s) = modify 0 (\<lambda>t. t) s"
    by (simp add: changeStatus_def modify_id)
  then show ?thesis using keeps_ok_id by blast
next
  case (Inr r)
  then show ?thesis
    using changeStatus_snd [OF Inr, of st now1 now2] applyChanges_modify by metis
qed

lemma createTask_cases:
  "createTask input now s = (Inl InvalidInputError, s) \<or>
   (\<exists>key ttl.
      validateProjectKey (coalesce (getProp input ''projectKey'') (JStr ''TASK'')) = Inr key
      \<and> ttl = trim (str_of (getProp input ''title'')) \<and> ttl \<noteq> []
      \<and> coalesce (getProp input ''priority'') MEDIUM \<in> VALID_PRIORITY
      \<and> createTask input now s =
          (Inr (fresh s),
           created s now key ttl (coalesce (getProp input ''description'') (JStr []))
             (coalesce (getProp input ''priority'') MEDIUM)
             (key @ ''-'' @ decimal (Suc (counter (codes s) key)))))"
proof (cases "validateProjectKey (coalesce (getProp input ''projectKey'') (JStr ''TASK''))")
  case (Inl e)
  then have "e = InvalidInputError"
    by (auto simp: validateProjectKey_def Let_def split: if_splits)
  with Inl show ?thesis by (simp add: createTask_def Let_def)
next
  case (Inr key)
  have n: "CodeGenerator_next g (JStr key) =
             (Inr (key @ ''-'' @ decimal (Suc (counter g key))),
              g\<lparr>counters := (counters g)(key \<mapsto> Suc (counter g key))\<rparr>)" for g
    using validateProjectKey_idem [OF Inr] by (rule CodeGenerator_next_Inr)
  show ?thesis
    using Inr
    by (simp add: createTask_def Let_def n created_def alloc_Task_def push_def)
qed

lemma created_fields [simp]:
  "objs (created s now key ttl descr prio c) = (objs s)(fresh s \<mapsto>
            \<lparr>task_id = nextId s, code = c, title = ttl,
             description = descr, status = TODO, priority = prio, createdAt = now,
             updatedAt = now, completedAt = None\<rparr>)"
  "arrs (created s now key ttl descr prio c) = (arrs s)(tasks s := arrs s (tasks s) @ [fresh s])"
  "fresh (created s now key ttl descr prio c) = Suc (fresh s)"
  "tasks (created s now key ttl descr prio c) = tasks s"
  "nextId (created s now key ttl descr prio c) = Suc (nextId s)"
  "codes (created s now key ttl descr prio c) =
     (codes s)\<lparr>counters := (counters (codes s))(key \<mapsto> Suc (counter (codes s) key))\<rparr>"
  by (simp_all add: created_def)

lemma new_task_ok:
  assumes "keyPattern key" and "trim x \<noteq> []" and "prio \<in> VALID_PRIORITY"
  shows "task_ok \<lparr>task_id = i, code = key @ ''-'' @ decimal (Suc n), title = trim x,
             description = descr, status = TODO, priority = prio, createdAt = now,
             updatedAt = now, completedAt = None\<rparr>"
proof -
  have "TODO \<noteq> DONE" by (simp add: TODO_def DONE_def)
  moreover have "TODO \<in> VALID_STATUS" by (simp add: VALID_STATUS_def)
  moreover have "\<exists>k m. keyPattern k \<and> 0 < m \<and> key @ ''-'' @ decimal (Suc n) = k @ ''-'' @ decimal m"
    using assms(1) by blast
  ultimately show ?thesis
    using assms by (simp add: task_ok_def coupled_def well_formed_def trim_idem)
qed

lemma invariant_created:
  assumes "invariant s" and "keyPattern key" and "trim x \<noteq> []" and "prio \<in> VALID_PRIORITY"
  shows "invariant (created s now key (trim x) descr prio
                     (key @ ''-'' @ decimal (Suc (counter (codes s) key))))"
  using assms new_task_ok [OF assms(2,3,4)]
  by (auto simp: invariant_def less_Suc_eq)

lemma invariant_createTask:
  assumes "invariant s"
  shows "invariant (snd (createTask input now s))"
proof -
  let ?d = "coalesce (getProp input ''description'') (JStr [])"
  let ?p = "coalesce (getProp input ''priority'') MEDIUM"
  let ?x = "str_of (getProp input ''title'')"
  from createTask_cases [of input now s]
  consider "createTask input now s = (Inl InvalidInputError, s)"
    | key where
      "validateProjectKey (coalesce (getProp input ''projectKey'') (JStr ''TASK'')) = Inr key"
      "trim ?x \<noteq> []" "?p \<in> VALID_PRIORITY"
      "createTask input now s =
         (Inr (fresh s),
          created s now key (trim ?x) ?d ?p (key @ ''-'' @ decimal (Suc (counter (codes s) key))))"
    by blast
  then show ?thesis
  proof cases
    case 1
    then show ?thesis using assms by simp
  next
    case 2
    have "invariant (created s now key (trim ?x) ?d ?p
                       (key @ ''-'' @ decimal (Suc (counter (codes s) key))))"
      using assms validateProjectKey_Inr [OF 2(1)] 2(2) 2(3) by (rule invariant_created)
    then show ?thesis by (simp only: 2(4) snd_conv)
  qed
qed

lemma invariant_filterTasks: "invariant s \<Longrightarrow> invariant (snd (filterTasks P s))"
  by (simp add: filterTasks_def invariant_alloc_array)

lemma invariant_step:
  assumes "invariant s"
  shows "invariant (snd (step c s))"
proof (cases c)
  case (CreateTask input now)
  then show ?thesis using assms by (simp add: split_beta invariant_createTask)
next
  case ListTasks
  then show ?thesis using assms by (simp add: split_beta listTasks_def invariant_alloc_array)
next
  case (UpdateTask ident ch now)
  then show ?thesis
    using assms updateTask_modify [of ident ch now s]
    by (auto simp: split_beta invariant_modify)
next
  case (ChangeStatus ident st now1 now2)
  then show ?thesis
    using assms changeStatus_modify [of ident st now1 now2 s]
    by (auto simp: split_beta invariant_modify)
next
  case (RemoveTask ident)
  then show ?thesis
    using assms by (auto simp: split_beta removeTask_def Let_def invariant_splice1)
next
  case (FilterByStatus st)
  then show ?thesis
    using assms by (auto simp: split_beta filterByStatus_def invariant_filterTasks)
next
  case (FilterByPriority p)
  then show ?thesis
    using assms by (auto simp: split_beta filterByPriority_def invariant_filterTasks)
next
  case (SearchByTitle q)
  then show ?thesis
    using assms by (auto simp: split_beta searchByTitle_def Let_def invariant_filterTasks)
qed (use assms in \<open>simp_all add: split_beta\<close>)

lemma invariant_run: "invariant s \<Longrightarrow> invariant (run cs s)"
  by (induction cs arbitrary: s) (simp_all add: invariant_step)

lemma reachable_invariant: "reachable s \<Longrightarrow> invariant s"
  by (auto simp: reachable_def intro: invariant_run invariant_new)

lemma reachable_new: "reachable new_TodoManager"
  unfolding reachable_def by (rule exI [of _ "[]"]) simp

lemma run_append: "run (cs @ ds) s = run ds (run cs s)"
  by (induction cs arbitrary: s) simp_all

lemma reachable_run: "reachable s \<Longrightarrow> reachable (run cs s)"
  unfolding reachable_def using run_append by metis

lemma reachable_step: "reachable s \<Longrightarrow> reachable (snd (step c s))"
  using reachable_run [of s "[c]"] by simp

subsection \<open>Status and completion; well-formed tasks\<close>

lemma getTask_Inr:
  assumes "getTask ident s = Inr r"
  shows "r \<in> set (arrs s (tasks s))"
    and "\<exists>t. objs s r = Some t \<and> JNum (Finite (of_nat (task_id t))) = ident"
proof -
  from assms have f: "find (id_is ident s) (arrs s (tasks s)) = Some r"
    by (auto simp: getTask_def split: if_splits option.splits)
  then show "r \<in> set (arrs s (tasks s))"
    by (auto simp: find_Some_iff)
  from f have "id_is ident s r" by (auto simp: find_Some_iff)
  then show "\<exists>t. objs s r = Some t \<and> JNum (Finite (of_nat (task_id t))) = ident"
    by (auto simp: id_is_def split: option.splits)
qed

lemma applyChanges_status:
  assumes "st \<in> VALID_STATUS"
  shows "applyChanges r (JObj [(''status'', st)]) now1 now2 s =
           (Inr (), modify r (\<lambda>t. t\<lparr>status := st,
                                    completedAt := (if st = DONE then Some now1 else None),
                                    updatedAt := now2\<rparr>) s)"
proof -
  have "\<not> nullish st"
    using assms by (auto simp: VALID_STATUS_def TODO_def IN_PROGRESS_def DONE_def nullish_def)
  then show ?thesis
    using assms
    by (simp add: applyChanges_def applyTitle_def applyDescription_def applyPriority_def
                  applyStatus_def nullish_def modify_modify)
qed

lemma changeStatus_valid:
  assumes "getTask ident s = Inr r" and "st \<in> VALID_STATUS"
  shows "changeStatus ident st now1 now2 s =
           (Inr r, modify r (\<lambda>t. t\<lparr>status := st,
                                    completedAt := (if st = DONE then Some now1 else None),
                                    updatedAt := now2\<rparr>) s)"
  using assms by (simp add: changeStatus_def applyChanges_status)

lemma in_store_modify:
  assumes "r \<in> set (arrs s (tasks s))" and "objs s r = Some t"
  shows "in_store (modify r f s) (f t)"
  using assms by (auto simp: in_store_def)

lemma reachable_task_ok:
  assumes "reachable s" and "in_store s t"
  shows "task_ok t"
  using reachable_invariant [OF assms(1)] assms(2) by (auto simp: in_store_def invariant_def)

text \<open>
  C1: in every state the manager reaches, a task in the store has a \<^verbatim>\<open>completedAt\<close> if and
  only if its status is \<^verbatim>\<open>done\<close>. The task a successful \<^verbatim>\<open>createTask\<close> returns is in the
  store with status \<^verbatim>\<open>todo\<close> and no \<^verbatim>\<open>completedAt\<close>. After any call of
  \<^verbatim>\<open>changeStatus\<close>, failed or not, the equivalence holds again; a successful call with one of
  the three statuses sets the status, and sets \<^verbatim>\<open>completedAt\<close> to the clock reading for
  \<^verbatim>\<open>done\<close> and clears it for \<^verbatim>\<open>todo\<close> and \<^verbatim>\<open>in_progress\<close>.
\<close>

theorem completedAt_iff_done:
  assumes "reachable s"
  shows "(\<forall>t. in_store s t \<longrightarrow> ((completedAt t \<noteq> None) = (status t = JStr ''done'')))
       \<and> (\<forall>input now r s'. createTask input now s = (Inr r, s') \<longrightarrow>
            (\<exists>t. objs s' r = Some t \<and> in_store s' t
                  \<and> status t = JStr ''todo'' \<and> completedAt t = None))
       \<and> (\<forall>ident st now1 now2 t. in_store (snd (changeStatus ident st now1 now2 s)) t \<longrightarrow>
            ((completedAt t \<noteq> None) = (status t = JStr ''done'')))
       \<and> (\<forall>ident st now1 now2 r s'.
             changeStatus ident st now1 now2 s = (Inr r, s')
             \<and> st \<in> {JStr ''todo'', JStr ''in_progress'', JStr ''done''} \<longrightarrow>
            (\<exists>t. objs s' r = Some t \<and> in_store s' t \<and> status t = st
                  \<and> completedAt t = (if st = JStr ''done'' then Some now1 else None)))"
proof (intro conjI allI impI)
  fix t
  assume "in_store s t"
  then have "task_ok t"
    using reachable_invariant [OF assms] by (auto simp: in_store_def invariant_def)
  then show "(completedAt t \<noteq> None) = (status t = JStr ''done'')"
    by (simp add: task_ok_def coupled_def DONE_def)
next
  fix input now r s'
  assume c: "createTask input now s = (Inr r, s')"
  from createTask_cases [of input now s] c
  obtain key ttl d p cd where r: "r = fresh s" and s': "s' = created s now key ttl d p cd"
    by auto
  let ?t = "\<lparr>task_id = nextId s, code = cd, title = ttl,
             description = d, status = TODO, priority = p, createdAt = now,
             updatedAt = now, completedAt = None\<rparr>"
  have "objs s' r = Some ?t" by (simp add: r s')
  moreover have "in_store s' ?t" by (simp add: in_store_def r s')
  ultimately show "\<exists>t. objs s' r = Some t \<and> in_store s' t
                  \<and> status t = JStr ''todo'' \<and> completedAt t = None"
    by (intro exI [of _ ?t]) (simp add: TODO_def)
next
  fix ident st now1 now2 t
  assume i: "in_store (snd (changeStatus ident st now1 now2 s)) t"
  have "snd (step (ChangeStatus ident st now1 now2) s) = snd (changeStatus ident st now1 now2 s)"
    by (simp add: split_beta)
  then have "reachable (snd (changeStatus ident st now1 now2 s))"
    using reachable_step [OF assms, of "ChangeStatus ident st now1 now2"] by simp
  then have "task_ok t" using i by (rule reachable_task_ok)
  then show "(completedAt t \<noteq> None) = (status t = JStr ''done'')"
    by (simp add: task_ok_def coupled_def DONE_def)
next
  fix ident st now1 now2 r s'
  assume "changeStatus ident st now1 now2 s = (Inr r, s')
             \<and> st \<in> {JStr ''todo'', JStr ''in_progress'', JStr ''done''}"
  then have c: "changeStatus ident st now1 now2 s = (Inr r, s')"
    and v: "st \<in> VALID_STATUS"
    by (simp_all add: VALID_STATUS_def TODO_def IN_PROGRESS_def DONE_def)
  from c obtain r0 where g: "getTask ident s = Inr r0"
    by (cases "getTask ident s") (auto simp: changeStatus_def)
  let ?f = "\<lambda>t. t\<lparr>status := st, completedAt := (if st = DONE then Some now1 else None),
                    updatedAt := now2\<rparr>"
  from changeStatus_valid [OF g v, of now1 now2] c
  have r: "r = r0" and s': "s' = modify r0 ?f s" by simp_all
  from getTask_Inr [OF g] obtain t0 where m: "r0 \<in> set (arrs s (tasks s))"
    and o: "objs s r0 = Some t0" by blast
  have "objs s' r = Some (?f t0)" by (simp add: r s' o)
  moreover have "in_store s' (?f t0)" unfolding s' using m o by (rule in_store_modify)
  ultimately show "\<exists>t. objs s' r = Some t \<and> in_store s' t \<and> status t = st
                  \<and> completedAt t = (if st = JStr ''done'' then Some now1 else None)"
    by (intro exI [of _ "?f t0"]) (simp add: DONE_def)
qed





lemma example_in_store: "in_store (run example_calls new_TodoManager) example_task"
  by code_simp

lemma example_reachable: "reachable (run example_calls new_TodoManager)"
  using reachable_new by (rule reachable_run)

theorem completedAt_iff_done_witness:
  "reachable (run example_calls new_TodoManager)
   \<and> in_store (run example_calls new_TodoManager) example_task
   \<and> ((completedAt example_task \<noteq> None) = (status example_task = JStr ''done''))"
  using completedAt_iff_done [OF example_reachable] example_reachable example_in_store
  by blast


subsection \<open>Identifiers\<close>

lemma createTask_effect:
  "(fst (createTask input now s) = Inl InvalidInputError \<and> snd (createTask input now s) = s)
   \<or> (\<exists>r t. fst (createTask input now s) = Inr r
            \<and> objs (snd (createTask input now s)) r = Some t \<and> task_id t = nextId s
            \<and> nextId (snd (createTask input now s)) = Suc (nextId s))"
  using createTask_cases [of input now s] by auto

lemma created_id_creation:
  "is_creation c s \<Longrightarrow> created_id c s = Some (nextId s) \<and> nextId (snd (step c s)) = Suc (nextId s)"
  "\<not> is_creation c s \<Longrightarrow> created_id c s = None \<and> nextId (snd (step c s)) = nextId s"
proof -
  show "created_id c s = Some (nextId s) \<and> nextId (snd (step c s)) = Suc (nextId s)"
    if "is_creation c s"
  proof (cases c)
    case (CreateTask input now)
    with that createTask_effect [of input now s] show ?thesis
      by (auto simp: is_creation_def succeeds_def created_id_def split_beta split: sum.splits)
  qed (use that in \<open>simp_all add: is_creation_def\<close>)
  show "created_id c s = None \<and> nextId (snd (step c s)) = nextId s"
    if "\<not> is_creation c s"
  proof (cases c)
    case (CreateTask input now)
    with that createTask_effect [of input now s] show ?thesis
      by (auto simp: is_creation_def succeeds_def created_id_def split_beta split: sum.splits)
  next
    case ListTasks
    then show ?thesis by (simp add: created_id_def split_beta listTasks_def)
  next
    case (UpdateTask ident ch now)
    then show ?thesis
      using updateTask_modify [of ident ch now s]
      by (auto simp: created_id_def split_beta)
  next
    case (ChangeStatus ident st now1 now2)
    then show ?thesis
      using changeStatus_modify [of ident st now1 now2 s]
      by (auto simp: created_id_def split_beta)
  next
    case (RemoveTask ident)
    then show ?thesis by (simp add: created_id_def split_beta removeTask_def Let_def)
  next
    case (FilterByStatus st)
    then show ?thesis by (simp add: created_id_def split_beta filterByStatus_def filterTasks_def)
  next
    case (FilterByPriority p)
    then show ?thesis by (simp add: created_id_def split_beta filterByPriority_def filterTasks_def)
  next
    case (SearchByTitle q)
    then show ?thesis
      by (simp add: created_id_def split_beta searchByTitle_def filterTasks_def Let_def)
  qed (simp_all add: created_id_def split_beta)
qed

lemma created_ids_from:
  "created_ids cs s = [nextId s ..< nextId s + creations cs s]
   \<and> nextId (run cs s) = nextId s + creations cs s"
proof (induction cs arbitrary: s)
  case Nil
  then show ?case by simp
next
  case (Cons c cs)
  show ?case
  proof (cases "is_creation c s")
    case True
    from created_id_creation(1) [OF True] Cons.IH [of "snd (step c s)"]
    show ?thesis using True by (simp add: upt_rec)
  next
    case False
    from created_id_creation(2) [OF False] Cons.IH [of "snd (step c s)"]
    show ?thesis using False by simp
  qed
qed

text \<open>
  C3: over any list of calls of a new manager (calls of \<^verbatim>\<open>removeTask\<close> and of every other
  method, failed calls too), the ids of the tasks returned by the successful \<^verbatim>\<open>createTask\<close>
  calls are 1, 2, 3, ... in the order of the calls: the \<open>n\<close>-th created task has id \<open>n\<close>, no id
  is given twice, and \<^verbatim>\<open>_nextId\<close> is one more than the number of tasks created.
\<close>

theorem created_ids_count_up:
  "created_ids cs new_TodoManager = [1 ..< Suc (creations cs new_TodoManager)]
   \<and> (\<forall>n < length (created_ids cs new_TodoManager). created_ids cs new_TodoManager ! n = Suc n)
   \<and> distinct (created_ids cs new_TodoManager)
   \<and> length (created_ids cs new_TodoManager) = creations cs new_TodoManager
   \<and> nextId (run cs new_TodoManager) = Suc (creations cs new_TodoManager)"
proof -
  have n: "nextId new_TodoManager = 1" by (simp add: new_TodoManager_def)
  have a: "created_ids cs new_TodoManager = [1 ..< Suc (creations cs new_TodoManager)]"
    using created_ids_from [of cs new_TodoManager] by (simp add: n)
  moreover have "nextId (run cs new_TodoManager) = Suc (creations cs new_TodoManager)"
    using created_ids_from [of cs new_TodoManager] by (simp add: n)
  moreover have "\<forall>n < length (created_ids cs new_TodoManager). created_ids cs new_TodoManager ! n = Suc n"
    unfolding a by (simp del: upt_Suc)
  moreover have "distinct (created_ids cs new_TodoManager)" unfolding a by (simp del: upt_Suc)
  moreover have "length (created_ids cs new_TodoManager) = creations cs new_TodoManager"
    unfolding a by (simp del: upt_Suc)
  ultimately show ?thesis by blast
qed

theorem created_ids_count_up_witness:
  "created_ids [CreateTask (JObj [(''title'', JStr ''A'')]) 1,
                CreateTask (JObj [(''title'', JStr '' '')]) 2,
                RemoveTask (JNum (Finite 1)),
                CreateTask (JObj [(''title'', JStr ''B''), (''projectKey'', JStr ''x'')]) 3,
                CreateTask (JObj [(''title'', JStr ''B'')]) 3] new_TodoManager = [1, 2]"
proof -
  let ?cs = "[CreateTask (JObj [(''title'', JStr ''A'')]) 1,
                CreateTask (JObj [(''title'', JStr '' '')]) 2,
                RemoveTask (JNum (Finite 1)),
                CreateTask (JObj [(''title'', JStr ''B''), (''projectKey'', JStr ''x'')]) 3,
                CreateTask (JObj [(''title'', JStr ''B'')]) 3]"
  have "creations ?cs new_TodoManager = 2" by code_simp
  then show ?thesis using created_ids_count_up [of ?cs] by (simp add: upt_rec)
qed

subsection \<open>Snapshots\<close>

lemma step_frame:
  assumes "tasks s < fresh s"
  shows "tasks (snd (step c s)) = tasks s \<and> fresh s \<le> fresh (snd (step c s))
         \<and> (\<forall>b. b < fresh s \<and> b \<noteq> tasks s \<longrightarrow> arrs (snd (step c s)) b = arrs s b)"
proof (cases c)
  case (CreateTask input now)
  then show ?thesis
    using createTask_cases [of input now s] by (auto simp: split_beta)
next
  case ListTasks
  then show ?thesis by (simp add: split_beta listTasks_def)
next
  case (UpdateTask ident ch now)
  then show ?thesis
    using updateTask_modify [of ident ch now s] by (auto simp: split_beta)
next
  case (ChangeStatus ident st now1 now2)
  then show ?thesis
    using changeStatus_modify [of ident st now1 now2 s] by (auto simp: split_beta)
next
  case (RemoveTask ident)
  then show ?thesis by (simp add: split_beta removeTask_def Let_def)
next
  case (FilterByStatus st)
  then show ?thesis by (simp add: split_beta filterByStatus_def filterTasks_def)
next
  case (FilterByPriority p)
  then show ?thesis by (simp add: split_beta filterByPriority_def filterTasks_def)
next
  case (SearchByTitle q)
  then show ?thesis by (simp add: split_beta searchByTitle_def filterTasks_def Let_def)
qed (simp_all add: split_beta)

lemma run_frame:
  assumes "tasks s < fresh s" and "a < fresh s" and "a \<noteq> tasks s"
  shows "arrs (run cs s) a = arrs s a"
  using assms
proof (induction cs arbitrary: s)
  case Nil
  then show ?case by simp
next
  case (Cons c cs)
  let ?s = "snd (step c s)"
  from step_frame [OF Cons.prems(1), of c]
  have t: "tasks ?s = tasks s" and f: "fresh s \<le> fresh ?s" and a: "arrs ?s a = arrs s a"
    using Cons.prems by simp_all
  have "arrs (run cs ?s) a = arrs ?s a"
    using Cons.prems t f by (intro Cons.IH) simp_all
  then show ?case using a by simp
qed

lemma ordered_new: "ordered new_TodoManager"
  by (simp add: ordered_def new_TodoManager_def ids_in_def)

lemma id_at_modify: "keeps_ok f \<Longrightarrow> id_at (modify r f s) = id_at s"
  by (auto simp: id_at_def keeps_ok_def fun_eq_iff split: option.splits)

lemma ordered_modify:
  assumes "ordered s" and "keeps_ok f"
  shows "ordered (modify r f s)"
  using assms(1) by (simp add: ordered_def ids_in_def id_at_modify [OF assms(2)])

lemma id_at_alloc_array: "id_at (snd (alloc_array xs s)) = id_at s"
  by (simp add: id_at_def fun_eq_iff)

lemma ordered_alloc_array:
  assumes "ordered s"
  shows "ordered (snd (alloc_array xs s))"
  using assms by (auto simp: ordered_def ids_in_def id_at_alloc_array less_Suc_eq)

lemma id_at_splice1: "id_at (splice1 a i s) = id_at s"
  by (simp add: id_at_def fun_eq_iff)

lemma sorted_wrt_remove: "sorted_wrt P xs \<Longrightarrow> sorted_wrt P (take i xs @ drop (Suc i) xs)"
proof -
  assume s: "sorted_wrt P xs"
  have "sorted_wrt P (take i xs)" using s by (rule sorted_wrt_take)
  moreover have "sorted_wrt P (drop (Suc i) xs)" using s by (rule sorted_wrt_drop)
  moreover have "\<forall>x \<in> set (take i xs). \<forall>y \<in> set (drop (Suc i) xs). P x y"
  proof (intro ballI)
    fix x y
    assume "x \<in> set (take i xs)" and "y \<in> set (drop (Suc i) xs)"
    then obtain m n where m: "m < length (take i xs)" "x = take i xs ! m"
      and n: "n < length (drop (Suc i) xs)" "y = drop (Suc i) xs ! n"
      by (auto simp: in_set_conv_nth)
    have "x = xs ! m" using m by simp
    moreover have "y = xs ! (Suc i + n)" using n by simp
    moreover have "m < Suc i + n" using m by simp
    moreover have "Suc i + n < length xs" using n by simp
    ultimately show "P x y" using s by (simp add: sorted_wrt_iff_nth_less)
  qed
  ultimately show ?thesis by (simp add: sorted_wrt_append)
qed

lemma ordered_splice1:
  assumes "ordered s"
  shows "ordered (splice1 (tasks s) i s)"
proof -
  let ?xs = "arrs s (tasks s)"
  have sub: "set (take i ?xs @ drop (Suc i) ?xs) \<subseteq> set ?xs"
    using set_take_subset set_drop_subset by fastforce
  have m: "map (id_at s) (take i ?xs @ drop (Suc i) ?xs)
            = take i (map (id_at s) ?xs) @ drop (Suc i) (map (id_at s) ?xs)"
    by (simp add: take_map drop_map)
  have "sorted_wrt (<) (map (id_at s) (take i ?xs @ drop (Suc i) ?xs))"
    unfolding m using assms by (intro sorted_wrt_remove) (simp add: ordered_def ids_in_def)
  moreover have "\<forall>r \<in> set (take i ?xs @ drop (Suc i) ?xs). r < fresh s \<and> id_at s r < nextId s"
    using sub assms by (auto simp: ordered_def ids_in_def)
  ultimately show ?thesis
    using assms by (auto simp: ordered_def ids_in_def id_at_splice1)
qed

lemma ordered_created:
  assumes "ordered s"
  shows "ordered (created s now key ttl descr prio c)"
proof -
  let ?s = "created s now key ttl descr prio c"
  have old: "id_at ?s r = id_at s r" if "r < fresh s" for r
    using that by (simp add: id_at_def)
  have new: "id_at ?s (fresh s) = nextId s" by (simp add: id_at_def)
  have "map (id_at ?s) (arrs s (tasks s)) = map (id_at s) (arrs s (tasks s))"
    using assms old by (simp add: ordered_def)
  then have i: "ids_in ?s (tasks ?s) = ids_in s (tasks s) @ [nextId s]"
    by (simp add: ids_in_def new)
  have "sorted_wrt (<) (ids_in s (tasks s) @ [nextId s])"
    using assms by (simp add: ordered_def sorted_wrt_append)
  moreover have "\<forall>i \<in> set (ids_in s (tasks s) @ [nextId s]). i < Suc (nextId s)"
    using assms by (auto simp: ordered_def less_Suc_eq)
  moreover have "\<forall>r \<in> set (arrs ?s (tasks ?s)). r < fresh ?s"
    using assms by (auto simp: ordered_def less_Suc_eq)
  moreover have "tasks ?s < fresh ?s" using assms by (simp add: ordered_def)
  ultimately show ?thesis unfolding ordered_def i by simp
qed

lemma ordered_createTask:
  assumes "ordered s"
  shows "ordered (snd (createTask input now s))"
  using createTask_cases [of input now s] assms by (auto simp: ordered_created)

lemma ordered_step:
  assumes "ordered s"
  shows "ordered (snd (step c s))"
proof (cases c)
  case (CreateTask input now)
  then show ?thesis using assms by (simp add: split_beta ordered_createTask)
next
  case ListTasks
  then show ?thesis using assms by (simp add: split_beta listTasks_def ordered_alloc_array)
next
  case (UpdateTask ident ch now)
  then show ?thesis
    using assms updateTask_modify [of ident ch now s]
    by (auto simp: split_beta ordered_modify)
next
  case (ChangeStatus ident st now1 now2)
  then show ?thesis
    using assms changeStatus_modify [of ident st now1 now2 s]
    by (auto simp: split_beta ordered_modify)
next
  case (RemoveTask ident)
  then show ?thesis
    using assms by (auto simp: split_beta removeTask_def Let_def ordered_splice1)
next
  case (FilterByStatus st)
  then show ?thesis
    using assms by (auto simp: split_beta filterByStatus_def filterTasks_def ordered_alloc_array)
next
  case (FilterByPriority p)
  then show ?thesis
    using assms by (auto simp: split_beta filterByPriority_def filterTasks_def ordered_alloc_array)
next
  case (SearchByTitle q)
  then show ?thesis
    using assms
    by (auto simp: split_beta searchByTitle_def Let_def filterTasks_def ordered_alloc_array)
qed (use assms in \<open>simp_all add: split_beta\<close>)

lemma ordered_run: "ordered s \<Longrightarrow> ordered (run cs s)"
  by (induction cs arbitrary: s) (simp_all add: ordered_step)

lemma reachable_ordered: "reachable s \<Longrightarrow> ordered s"
  by (auto simp: reachable_def intro: ordered_run ordered_new)

lemma ids_in_listTasks:
  "tasks s < fresh s \<Longrightarrow> ids_in (snd (listTasks s)) (fst (listTasks s)) = ids_in s (tasks s)"
  by (simp add: ids_in_def listTasks_def id_at_alloc_array)

text \<open>
  C7: in every state the manager reaches, \<^verbatim>\<open>listTasks\<close> returns a new array (not the
  manager's own) holding the references of the manager's array in their order; it leaves the
  task objects, the manager's fields and every array that existed as they were. A second
  call returns another new array with the same contents. Whatever calls follow
  (\<^verbatim>\<open>createTask\<close> and \<^verbatim>\<open>removeTask\<close> among them), the array returned first keeps its
  contents. The ids of the tasks in the returned array increase strictly: the tasks stand in
  the order in which they were created.
\<close>

theorem listTasks_snapshot:
  assumes "reachable s"
  shows "arrs (snd (listTasks s)) (fst (listTasks s)) = arrs s (tasks s)
       \<and> sorted_wrt (<) (ids_in (snd (listTasks s)) (fst (listTasks s)))
       \<and> fst (listTasks s) \<noteq> tasks s
       \<and> objs (snd (listTasks s)) = objs s
       \<and> tasks (snd (listTasks s)) = tasks s
       \<and> nextId (snd (listTasks s)) = nextId s
       \<and> codes (snd (listTasks s)) = codes s
       \<and> (\<forall>b. b < fresh s \<longrightarrow> arrs (snd (listTasks s)) b = arrs s b)
       \<and> arrs (snd (listTasks (snd (listTasks s)))) (fst (listTasks (snd (listTasks s))))
           = arrs (snd (listTasks (snd (listTasks s)))) (fst (listTasks s))
       \<and> fst (listTasks (snd (listTasks s))) \<noteq> fst (listTasks s)
       \<and> (\<forall>cs. arrs (run cs (snd (listTasks s))) (fst (listTasks s)) = arrs s (tasks s))"
proof -
  have t: "tasks s < fresh s"
    using reachable_invariant [OF assms] by (simp add: invariant_def)
  let ?s1 = "snd (listTasks s)"
  have "\<forall>cs. arrs (run cs ?s1) (fst (listTasks s)) = arrs s (tasks s)"
  proof
    fix cs
    have "arrs (run cs ?s1) (fst (listTasks s)) = arrs ?s1 (fst (listTasks s))"
      using t by (intro run_frame) (simp_all add: listTasks_def)
    then show "arrs (run cs ?s1) (fst (listTasks s)) = arrs s (tasks s)"
      by (simp add: listTasks_def)
  qed
  moreover have "sorted_wrt (<) (ids_in (snd (listTasks s)) (fst (listTasks s)))"
    using reachable_ordered [OF assms] t by (simp add: ids_in_listTasks ordered_def)
  ultimately show ?thesis using t by (auto simp: listTasks_def)
qed

theorem listTasks_snapshot_witness:
  "reachable (run example_calls new_TodoManager)
   \<and> arrs (run [CreateTask (JObj [(''title'', JStr ''B'')]) 10, RemoveTask (JNum (Finite 1))]
              (snd (listTasks (run example_calls new_TodoManager))))
          (fst (listTasks (run example_calls new_TodoManager)))
       = arrs (run example_calls new_TodoManager) (tasks (run example_calls new_TodoManager))
   \<and> arrs (run example_calls new_TodoManager) (tasks (run example_calls new_TodoManager)) = [1]
   \<and> arrs (run [CreateTask (JObj [(''title'', JStr ''B'')]) 10, RemoveTask (JNum (Finite 1))]
              (snd (listTasks (run example_calls new_TodoManager))))
          (tasks (run example_calls new_TodoManager)) = [3]"
proof -
  have "arrs (run example_calls new_TodoManager) (tasks (run example_calls new_TodoManager)) = [1]"
    by code_simp
  moreover have "arrs (run [CreateTask (JObj [(''title'', JStr ''B'')]) 10, RemoveTask (JNum (Finite 1))]
              (snd (listTasks (run example_calls new_TodoManager))))
          (tasks (run example_calls new_TodoManager)) = [3]"
    by code_simp
  ultimately show ?thesis
    using listTasks_snapshot [OF example_reachable] example_reachable by blast
qed

subsection \<open>Arguments that are no ids\<close>

lemma findIndex_none: "(\<forall>x \<in> set xs. \<not> P x) \<Longrightarrow> findIndex P xs = - 1"
  by (induction xs) simp_all

lemma find_none: "(\<forall>x \<in> set xs. \<not> P x) \<Longrightarrow> find P xs = None"
  by (simp add: find_None_iff)

lemma getTask_NotFound:
  assumes "typeof ident = ''number''" and "no_task_with_id ident s"
  shows "getTask ident s = Inl NotFoundError"
  using assms by (simp add: getTask_def no_task_with_id_def find_none)

lemma removeTask_NotFound:
  assumes "typeof ident = ''number''" and "no_task_with_id ident s"
  shows "removeTask ident s = (Inl NotFoundError, s)"
  using assms by (simp add: removeTask_def no_task_with_id_def findIndex_none)

lemma id_is_integer: "id_is ident s r \<Longrightarrow> is_integer ident"
  by (auto simp: id_is_def is_integer_def split: option.splits)

lemma not_integer_no_task: "\<not> is_integer ident \<Longrightarrow> no_task_with_id ident s"
  using id_is_integer by (auto simp: no_task_with_id_def)

text \<open>
  C6 as stated fails: 1.5 is a number, so it passes the check of the type, and no task has
  the id 1.5, so \<^verbatim>\<open>getTask\<close> and \<^verbatim>\<open>removeTask\<close> throw \<^verbatim>\<open>NotFoundError\<close>, here in a store
  whose one task has the id 1.
\<close>

theorem non_integer_id_counterexample:
  "\<not> is_integer (JNum (Finite (3 / 2)))
   \<and> getTask (JNum (Finite (3 / 2))) (run example_calls new_TodoManager) = Inl NotFoundError
   \<and> fst (removeTask (JNum (Finite (3 / 2))) (run example_calls new_TodoManager))
       = Inl NotFoundError
   \<and> getTask (JNum (Finite 1)) (run example_calls new_TodoManager) = Inr 1"
  by code_simp

text \<open>
  C6, amended: for every argument that is not a number, \<^verbatim>\<open>getTask\<close> and \<^verbatim>\<open>removeTask\<close>
  fail with \<^verbatim>\<open>InvalidInputError\<close> and leave the state as it is; for every number that is
  not an integer (1.5, NaN, the infinities) they fail with \<^verbatim>\<open>NotFoundError\<close>, in every state.
\<close>

theorem non_number_id_rejected:
  "(typeof ident \<noteq> ''number'' \<longrightarrow>
      getTask ident s = Inl InvalidInputError \<and> removeTask ident s = (Inl InvalidInputError, s))
   \<and> (typeof ident = ''number'' \<and> \<not> is_integer ident \<longrightarrow>
      getTask ident s = Inl NotFoundError \<and> removeTask ident s = (Inl NotFoundError, s))"
proof -
  have a: "typeof ident \<noteq> ''number'' \<longrightarrow>
      getTask ident s = Inl InvalidInputError \<and> removeTask ident s = (Inl InvalidInputError, s)"
    by (simp add: getTask_def removeTask_def)
  have b: "typeof ident = ''number'' \<and> \<not> is_integer ident \<longrightarrow>
      getTask ident s = Inl NotFoundError \<and> removeTask ident s = (Inl NotFoundError, s)"
  proof
    assume h: "typeof ident = ''number'' \<and> \<not> is_integer ident"
    then have n: "no_task_with_id ident s" by (simp add: not_integer_no_task)
    from h have t: "typeof ident = ''number''" by simp
    show "getTask ident s = Inl NotFoundError \<and> removeTask ident s = (Inl NotFoundError, s)"
      using getTask_NotFound [OF t n] removeTask_NotFound [OF t n] by simp
  qed
  from a b show ?thesis by (rule conjI)
qed

theorem non_number_id_rejected_witness:
  "typeof (JStr ''1'') \<noteq> ''number''
   \<and> getTask (JStr ''1'') (run example_calls new_TodoManager) = Inl InvalidInputError
   \<and> fst (removeTask (JStr ''1'') (run example_calls new_TodoManager)) = Inl InvalidInputError
   \<and> typeof (JNum NaN) = ''number'' \<and> \<not> is_integer (JNum NaN)
   \<and> getTask (JNum NaN) (run example_calls new_TodoManager) = Inl NotFoundError
   \<and> fst (removeTask (JNum NaN) (run example_calls new_TodoManager)) = Inl NotFoundError"
proof -
  have a: "typeof (JStr ''1'') \<noteq> ''number''" by simp
  have b: "typeof (JNum NaN) = ''number'' \<and> \<not> is_integer (JNum NaN)"
    by (simp add: is_integer_def)
  show ?thesis
    using a b non_number_id_rejected [of "JStr ''1''" "run example_calls new_TodoManager"]
          non_number_id_rejected [of "JNum NaN" "run example_calls new_TodoManager"]
    by simp
qed

text \<open>
  C10: \<^verbatim>\<open>updateTask\<close> resolves the id before it looks at \<^verbatim>\<open>changes\<close>. Whenever the lookup
  of the id by \<^verbatim>\<open>getTask\<close> fails, \<^verbatim>\<open>updateTask\<close> fails with the error of the lookup and
  leaves the state as it is, whatever \<^verbatim>\<open>changes\<close> is (\<^verbatim>\<open>null\<close>, a number, any value). For
  an id (a number) that no task of the store has, the error is \<^verbatim>\<open>NotFoundError\<close>.
\<close>

theorem updateTask_NotFound_first:
  "(\<forall>e. getTask ident s = Inl e \<longrightarrow> updateTask ident changes now s = (Inl e, s))
   \<and> (typeof ident = ''number'' \<and> no_task_with_id ident s \<longrightarrow>
        updateTask ident changes now s = (Inl NotFoundError, s))"
proof (intro conjI allI impI)
  fix e
  assume "getTask ident s = Inl e"
  then show "updateTask ident changes now s = (Inl e, s)" by (simp add: updateTask_def)
next
  assume "typeof ident = ''number'' \<and> no_task_with_id ident s"
  then have "getTask ident s = Inl NotFoundError" by (simp add: getTask_NotFound)
  then show "updateTask ident changes now s = (Inl NotFoundError, s)"
    by (simp add: updateTask_def)
qed

theorem updateTask_NotFound_first_witness:
  "typeof (JNum (Finite 999)) = ''number''
   \<and> no_task_with_id (JNum (Finite 999)) (run example_calls new_TodoManager)
   \<and> updateTask (JNum (Finite 999)) JNull 5 (run example_calls new_TodoManager)
       = (Inl NotFoundError, run example_calls new_TodoManager)
   \<and> updateTask (JNum (Finite 999)) (JNum (Finite 3)) 5 (run example_calls new_TodoManager)
       = (Inl NotFoundError, run example_calls new_TodoManager)"
proof -
  have a: "typeof (JNum (Finite 999)) = ''number''" by simp
  have b: "no_task_with_id (JNum (Finite 999)) (run example_calls new_TodoManager)"
    by code_simp
  show ?thesis
    using a b
      updateTask_NotFound_first [of "JNum (Finite 999)" "run example_calls new_TodoManager" JNull 5]
      updateTask_NotFound_first [of "JNum (Finite 999)" "run example_calls new_TodoManager" "JNum (Finite 3)" 5]
    by simp
qed

text \<open>
  C5: \<^verbatim>\<open>createTask\<close> does not check the type of \<^verbatim>\<open>description\<close>. On a new manager,
  \<^verbatim>\<open>createTask({title: 'A', description: 42})\<close> returns a task (at address 1) whose
  description is the number 42, where the claim wants \<^verbatim>\<open>InvalidInputError\<close>. An absent
  description becomes the empty string. \<^verbatim>\<open>updateTask\<close> with the same description is
  rejected: the check exists in \<^verbatim>\<open>applyChanges\<close> and is missing in \<^verbatim>\<open>createTask\<close>.
\<close>

theorem createTask_description_unchecked:
  "fst (createTask (JObj [(''title'', JStr ''A''), (''description'', JNum (Finite 42))]) 0
          new_TodoManager) = Inr 1
   \<and> map_option description
        (objs (snd (createTask (JObj [(''title'', JStr ''A''), (''description'', JNum (Finite 42))]) 0
                      new_TodoManager)) 1) = Some (JNum (Finite 42))
   \<and> map_option description
        (objs (snd (createTask (JObj [(''title'', JStr ''A'')]) 0 new_TodoManager)) 1)
       = Some (JStr [])
   \<and> fst (updateTask (JNum (Finite 1)) (JObj [(''description'', JNum (Finite 42))]) 1
            (snd (createTask (JObj [(''title'', JStr ''A'')]) 0 new_TodoManager)))
       = Inl InvalidInputError"
  by code_simp

theorem createTask_description_unchecked_witness:
  "typeof (JNum (Finite 42)) \<noteq> ''string''
   \<and> map_option typeof
        (map_option description
          (objs (snd (createTask (JObj [(''title'', JStr ''A''), (''description'', JNum (Finite 42))]) 0
                        new_TodoManager)) 1)) = Some ''number''"
proof -
  from createTask_description_unchecked
  have d: "map_option description
        (objs (snd (createTask (JObj [(''title'', JStr ''A''), (''description'', JNum (Finite 42))]) 0
                      new_TodoManager)) 1) = Some (JNum (Finite 42))"
    by (elim conjE)
  show ?thesis unfolding d by simp
qed

subsection \<open>Failed updates\<close>






subsection \<open>Search by title\<close>







end
